theory Spec2Isabelle
  imports Main
begin

section \<open>Errors shared by the workers\<close>

text \<open>
  Go's \<open>error\<close> values: an application error with its message, or one of the two sentinel
  errors of package \<open>context\<close>.  A \<open>WorkerError\<close> wraps an error with a code.
\<close>

datatype go_error = Error string | DeadlineExceeded | Canceled

record WorkerError =
  error :: go_error
  code :: int


definition newerror :: "go_error \<Rightarrow> int \<Rightarrow> WorkerError" where
  "newerror e c = \<lparr>error = e, code = c\<rparr>"

type_synonym bytes = string

section \<open>Link validation: \<open>validatorWorker.Validate\<close> and \<open>doValidation\<close>\<close>

text \<open>
  The HTTP client is a stateful collaborator: what \<open>client.Do\<close> answers may depend on how
  many calls were made before (the fakes of the tests are programmed per call index).  A client
  is therefore a function of the number of earlier calls and of the request's verb.  Go's
  pair \<open>(resp, err)\<close> is the datatype \<open>reply\<close>: \<open>NetErr\<close> is \<open>err != nil\<close>, \<open>Resp\<close>
  carries \<open>resp.StatusCode\<close>.
\<close>

datatype verb = HEAD | GET

datatype reply = Resp int | NetErr string

type_synonym Client = "nat \<Rightarrow> verb \<Rightarrow> reply"

text \<open>Everything the worker does to the outside is recorded in the order it happens.\<close>

datatype event = Do verb reply | Close | Sleep nat | Warning

record world =
  calls :: nat
  draws :: nat
  log :: "event list"

definition world0 :: world where
  "world0 = \<lparr>calls = 0, draws = 0, log = []\<rparr>"

definition emit :: "event \<Rightarrow> world \<Rightarrow> world" where
  "emit e w = w\<lparr>log := log w @ [e]\<rparr>"

text \<open>\<open>client.Do(req)\<close>: the answer for this call index, the call counted and logged.\<close>

definition client_Do :: "Client \<Rightarrow> verb \<Rightarrow> world \<Rightarrow> reply \<times> world" where
  "client_Do cl m w =
     (let r = cl (calls w) m in (r, emit (Do m r) (w\<lparr>calls := calls w + 1\<rparr>)))"

text \<open>
  \<open>rand.Intn(n)\<close>: some value below \<open>n\<close>.  The random source is a parameter, a raw draw per
  draw index, reduced into the range.
\<close>

definition Intn :: "(nat \<Rightarrow> nat) \<Rightarrow> nat \<Rightarrow> world \<Rightarrow> nat \<times> world" where
  "Intn rs n w = (rs (draws w) mod n, w\<lparr>draws := draws w + 1\<rparr>)"

definition intervals :: "nat list" where
  "intervals = [1, 5, 10, 20]"

definition StatusTooManyRequests :: int where "StatusTooManyRequests = 429"
definition StatusForbidden :: int where "StatusForbidden = 403"
definition StatusUnauthorized :: int where "StatusUnauthorized = 401"

text \<open>
  The \<open>for\<close> loop of \<open>doValidation\<close>, entered with the status of the latest response (whose
  body is closed already) and the attempt counter.
\<close>

function doValidation_loop ::
  "(nat \<Rightarrow> nat) \<Rightarrow> Client \<Rightarrow> verb \<Rightarrow> int \<Rightarrow> nat \<Rightarrow> world \<Rightarrow> reply \<times> world" where
  "doValidation_loop rs cl m status attempts w =
     (if status = StatusTooManyRequests \<and> attempts < length intervals - 1 then
        (let jw = Intn rs (attempts + 1) w;
             w2 = emit (Sleep (intervals ! attempts + fst jw)) (snd jw);
             rw = client_Do cl m w2
         in case fst rw of
              NetErr e \<Rightarrow> (NetErr e, snd rw)
            | Resp s \<Rightarrow> doValidation_loop rs cl m s (attempts + 1) (emit Close (snd rw)))
      else (Resp status, w))"
  by pat_completeness auto
termination
  by (relation "measure (\<lambda>(rs, cl, m, status, attempts, w). length intervals - 1 - attempts)")
     auto

declare doValidation_loop.simps [simp del]

definition doValidation ::
  "(nat \<Rightarrow> nat) \<Rightarrow> Client \<Rightarrow> verb \<Rightarrow> world \<Rightarrow> reply \<times> world" where
  "doValidation rs cl m w =
     (let rw = client_Do cl m w
      in case fst rw of
           NetErr e \<Rightarrow> (NetErr e, snd rw)
         | Resp s \<Rightarrow> doValidation_loop rs cl m s 0 (emit Close (snd rw)))"

text \<open>The URL type of \<open>pkg/util/urls\<close>, as far as \<open>Validate\<close> reads it.\<close>

record URL =
  Hostname :: string
  String :: string

record ValidationTask =
  LinkUrl :: URL
  LinkDestination :: string
  ContentSourcePath :: string

text \<open>
  The \<open>task interface{}\<close> argument: a \<open>*ValidationTask\<close>, or a value of another dynamic type
  (of which only the type's name is kept, for the \<open>%T\<close> of the error message).
\<close>

datatype task = VTask ValidationTask | OtherTask string

text \<open>
  A resource handler: \<open>BuildAbsLink\<close> yields \<open>Inl err\<close> or \<open>Inr link\<close>; \<open>GetClient\<close> may be nil.
\<close>

record Handler =
  BuildAbsLink :: "string \<Rightarrow> string \<Rightarrow> string + string"
  GetClient :: "Client option"

record validatorWorker =
  httpClient :: Client
  resourceHandlers :: "string \<Rightarrow> Handler option"

text \<open>\<open>strings.Contains\<close>.\<close>

fun Contains :: "string \<Rightarrow> string \<Rightarrow> bool" where
  "Contains [] sub = (sub = [])"
| "Contains (c # s) sub = (take (length sub) (c # s) = sub \<or> Contains s sub)"

text \<open>
  The parts of the environment \<open>Validate\<close> depends on: the random source of the jitter, and
  \<open>http.NewRequestWithContext\<close>, which gives \<open>Some err\<close> when the request cannot be built.
\<close>

record env =
  rand_src :: "nat \<Rightarrow> nat"
  NewRequestWithContext :: "verb \<Rightarrow> string \<Rightarrow> string option"

definition error_status :: "int \<Rightarrow> bool" where
  "error_status s \<longleftrightarrow> s \<ge> 400 \<and> s \<noteq> StatusForbidden \<and> s \<noteq> StatusUnauthorized"

text \<open>
  \<open>Validate\<close> returns Go's \<open>error\<close>: \<open>None\<close> is nil, \<open>Some msg\<close> an error with that message.
\<close>

definition Validate_request ::
  "env \<Rightarrow> Client \<Rightarrow> ValidationTask \<Rightarrow> world \<Rightarrow> string option \<times> world" where
  "Validate_request ev client vTask w =
     (case NewRequestWithContext ev HEAD (String (LinkUrl vTask)) of
        Some err \<Rightarrow> (Some (''failed to prepare HEAD validation request: '' @ err), w)
      | None \<Rightarrow>
          (let rw = doValidation (rand_src ev) client HEAD w
           in case fst rw of
                NetErr e \<Rightarrow> (None, emit Warning (snd rw))
              | Resp s \<Rightarrow>
                  if error_status s then
                    (case NewRequestWithContext ev GET (String (LinkUrl vTask)) of
                       Some err \<Rightarrow>
                         (Some (''failed to prepare GET validation request: '' @ err), snd rw)
                     | None \<Rightarrow>
                         (let rw2 = doValidation (rand_src ev) client GET (snd rw)
                          in case fst rw2 of
                               NetErr e \<Rightarrow> (None, emit Warning (snd rw2))
                             | Resp s2 \<Rightarrow>
                                 if error_status s2 then (None, emit Warning (snd rw2))
                                 else (None, snd rw2)))
                  else (None, snd rw)))"

definition Validate ::
  "env \<Rightarrow> validatorWorker \<Rightarrow> task \<Rightarrow> world \<Rightarrow> string option \<times> world" where
  "Validate ev v t w =
     (case t of
        OtherTask ty \<Rightarrow> (Some (''incorrect validation task: '' @ ty @ [CHR 0x0A]), w)
      | VTask vTask \<Rightarrow>
          (let host = Hostname (LinkUrl vTask)
           in if host = ''localhost'' \<or> host = ''127.0.0.1'' \<or> host = ''1.2.3.4''
                 \<or> Contains host ''foo.bar''
              then (None, w)
              else
                (let absLinkDestination = String (LinkUrl vTask)
                 in case resourceHandlers v absLinkDestination of
                      None \<Rightarrow> Validate_request ev (httpClient v) vTask w
                    | Some handler \<Rightarrow>
                        (case BuildAbsLink handler (ContentSourcePath vTask) absLinkDestination of
                           Inr link \<Rightarrow> (None, w)
                         | Inl err \<Rightarrow>
                             (case GetClient handler of
                                Some handlerClient \<Rightarrow> Validate_request ev handlerClient vTask w
                              | None \<Rightarrow> Validate_request ev (httpClient v) vTask w)))))"

text \<open>Projections of the log used to state the properties.\<close>

fun requests :: "event list \<Rightarrow> verb list" where
  "requests [] = []"
| "requests (Do m r # es) = m # requests es"
| "requests (e # es) = requests es"

fun sleeps :: "event list \<Rightarrow> nat list" where
  "sleeps [] = []"
| "sleeps (Sleep d # es) = d # sleeps es"
| "sleeps (e # es) = sleeps es"

fun net_failed :: "event \<Rightarrow> bool" where
  "net_failed (Do m (NetErr e)) = True"
| "net_failed ev = False"

text \<open>A log is clean when no request in it failed at the network level.\<close>

definition clean :: "event list \<Rightarrow> bool" where
  "clean es \<longleftrightarrow> \<not> list_ex net_failed es"

section \<open>Fixtures of the validator's tests\<close>

text \<open>
  The setting of \<open>validator_test.go\<close>: requests can always be built, no resource handler is
  registered for the link, and the link is \<open>https://repoHost/fake_link\<close> referenced from
  \<open>fake_path\<close>.  The client and the random source are left open.
\<close>

definition test_env :: "(nat \<Rightarrow> nat) \<Rightarrow> env" where
  "test_env rs = \<lparr>rand_src = rs, NewRequestWithContext = (\<lambda>m u. None)\<rparr>"

definition test_worker :: "Client \<Rightarrow> validatorWorker" where
  "test_worker cl = \<lparr>httpClient = cl, resourceHandlers = (\<lambda>u. None)\<rparr>"

definition test_task :: task where
  "test_task = VTask \<lparr>LinkUrl = \<lparr>Hostname = ''repoHost'', String = ''https://repoHost/fake_link''\<rparr>,
     LinkDestination = ''https://repoHost/fake_link'', ContentSourcePath = ''fake_path''\<rparr>"

section \<open>Download scheduling: \<open>downloadScheduler.Schedule\<close>\<close>

record downloadTask =
  source :: string
  destinationPath :: string

text \<open>
  The queue behind \<open>taskqueue.Interface\<close> is a parameter: \<open>AddTask\<close> takes the queue's state
  and the task and answers whether the task was accepted, with the queue's new state.
\<close>

type_synonym 'q AddTask = "'q \<Rightarrow> downloadTask \<Rightarrow> bool \<times> 'q"

definition Schedule :: "'q AddTask \<Rightarrow> 'q \<Rightarrow> string \<Rightarrow> string \<Rightarrow> string option \<times> 'q" where
  "Schedule addTask q src dst =
     (let task = \<lparr>source = src, destinationPath = dst\<rparr>;
          r = addTask q task
      in if \<not> fst r then (Some (''scheduling download of '' @ source task @ '' failed''), snd r)
         else (None, snd r))"

section \<open>Document worker: \<open>DocumentWorker.Work\<close>\<close>












section \<open>Manifest parsing: \<open>ParseWithMetadata\<close>\<close>

text \<open>The operations of the semver, template and yaml libraries the package calls.\<close>

record ('v, 't, 'd) libs =
  NewVersion :: "string \<Rightarrow> string + 'v"
  Original :: "'v \<Rightarrow> string"
  Major :: "'v \<Rightarrow> nat"
  Minor :: "'v \<Rightarrow> nat"
  LessThan :: "'v \<Rightarrow> 'v \<Rightarrow> bool"
  sort_reverse :: "'v list \<Rightarrow> 'v list"
  template_Parse :: "string \<Rightarrow> string + 't"
  template_Execute :: "'t \<Rightarrow> (string \<rightharpoonup> string) option \<Rightarrow> string + bytes"
  yaml_Unmarshal :: "bytes \<Rightarrow> string + 'd"

text \<open>The \<open>%d\<close> of \<open>fmt.Sprintf\<close> on a number that is not negative.\<close>

function string_of_nat :: "nat \<Rightarrow> string" where
  "string_of_nat n =
     (if n < 10 then [char_of (48 + n)]
      else string_of_nat (n div 10) @ [char_of (48 + n mod 10)])"
  by pat_completeness auto
termination
  by (relation "measure id") auto

declare string_of_nat.simps [simp del]

text \<open>\<open>strings.Join\<close>.\<close>

fun Join :: "string list \<Rightarrow> string \<Rightarrow> string" where
  "Join [] sep = []"
| "Join [x] sep = x"
| "Join (x # y # ys) sep = x @ sep @ Join (y # ys) sep"

text \<open>The first loop of \<open>getLastNVersions\<close>: every tag is parsed, the first failure returns.\<close>

fun parse_versions :: "('v, 't, 'd) libs \<Rightarrow> string list \<Rightarrow> string + 'v list" where
  "parse_versions L [] = Inr []"
| "parse_versions L (tag # tags) =
     (case NewVersion L tag of
        Inl err \<Rightarrow> Inl (''Error parsing version: '' @ tag)
      | Inr version \<Rightarrow>
          (case parse_versions L tags of
             Inl e \<Rightarrow> Inl e
           | Inr versions \<Rightarrow> Inr (version # versions)))"

text \<open>\<open>fmt.Sprintf("%d.%d", v.Major(), v.Minor())\<close>.\<close>

definition major_minor :: "('v, 't, 'd) libs \<Rightarrow> 'v \<Rightarrow> string" where
  "major_minor L v = string_of_nat (Major L v) @ ''.'' @ string_of_nat (Minor L v)"

text \<open>
  The second loop, over the sorted versions after the first, while fewer than \<open>n\<close> versions
  are collected.
\<close>

fun latest_loop ::
  "('v, 't, 'd) libs \<Rightarrow> nat \<Rightarrow> 'v list \<Rightarrow> 'v \<Rightarrow> string list \<Rightarrow> string + string list" where
  "latest_loop L n [] constaint latestVersions = Inr latestVersions"
| "latest_loop L n (v # vs) constaint latestVersions =
     (if length latestVersions < n then
        (if LessThan L v constaint then
           (case NewVersion L (major_minor L v) of
              Inl err \<Rightarrow> Inl err
            | Inr c \<Rightarrow> latest_loop L n vs c (latestVersions @ [Original L v]))
         else latest_loop L n vs constaint latestVersions)
      else Inr latestVersions)"

text \<open>
  A call returns or panics.  \<open>getLastNVersions\<close> indexes \<open>versions[0]\<close> after sorting: sorting
  keeps the length, so the slice is not empty there; the library's sort being a parameter,
  the model keeps the panic Go would raise on an empty slice.
\<close>

datatype 'a call = Panic string | Returned 'a

definition getLastNVersions ::
  "('v, 't, 'd) libs \<Rightarrow> string list \<Rightarrow> int \<Rightarrow> (string + string list) call" where
  "getLastNVersions L tags n =
     (if n < 0 then Returned (Inl ''n can't be negative'')
      else if n = 0 then Returned (Inr [])
      else if length tags = 0 then
        Returned (Inl (''number of tags is greater than the actual number of all tags: wanted - ''
             @ string_of_nat (nat n) @ '', actual - '' @ string_of_nat (length tags)))
      else
        (case parse_versions L tags of
           Inl e \<Rightarrow> Returned (Inl e)
         | Inr parsed \<Rightarrow>
             (case sort_reverse L parsed of
                [] \<Rightarrow> Panic ''index out of range''
              | firstVersion # others \<Rightarrow>
                  (case NewVersion L (major_minor L firstVersion) of
                     Inl err \<Rightarrow> Returned (Inl err)
                   | Inr constaint \<Rightarrow>
                       (case latest_loop L (nat n) others constaint [Original L firstVersion] of
                          Inl err \<Rightarrow> Returned (Inl err)
                        | Inr latestVersions \<Rightarrow>
                            if nat n > length latestVersions then
                              Returned (Inl (''number of tags is greater than the actual number of tags with latest patch:requested ''
                                   @ string_of_nat (nat n) @ '' actual ''
                                   @ string_of_nat (length latestVersions)))
                            else Returned (Inr latestVersions))))))"

text \<open>\<open>resolveVariables\<close> and \<open>Parse\<close>; a nil map may be read.\<close>

definition resolveVariables ::
  "('v, 't, 'd) libs \<Rightarrow> bytes \<Rightarrow> (string \<rightharpoonup> string) option \<Rightarrow> string + bytes" where
  "resolveVariables L manifestContent vars =
     (case template_Parse L manifestContent of
        Inl err \<Rightarrow> Inl err
      | Inr tmpl \<Rightarrow> template_Execute L tmpl vars)"

definition Parse ::
  "('v, 't, 'd) libs \<Rightarrow> bytes \<Rightarrow> (string \<rightharpoonup> string) option \<Rightarrow> string + 'd" where
  "Parse L b flagsVars =
     (case resolveVariables L b flagsVars of
        Inl err \<Rightarrow> Inl err
      | Inr blob \<Rightarrow> yaml_Unmarshal L blob)"

text \<open>
  \<open>ParseWithMetadata\<close>, with the package-global \<open>flagsVars\<close> passed in and returned: \<open>None\<close> is
  the nil map, which Go cannot assign into.
\<close>

definition ParseWithMetadata ::
  "('v, 't, 'd) libs \<Rightarrow> bytes \<Rightarrow> string list \<Rightarrow> int \<Rightarrow> string
   \<Rightarrow> (string \<rightharpoonup> string) option \<Rightarrow> (string + 'd) call \<times> (string \<rightharpoonup> string) option" where
  "ParseWithMetadata L b allTags nTags targetBranch flagsVars =
     (case getLastNVersions L allTags nTags of
        Panic p \<Rightarrow> (Panic p, flagsVars)
      | Returned (Inl err) \<Rightarrow> (Returned (Inl err), flagsVars)
      | Returned (Inr tags) \<Rightarrow>
          (let versionList = [] @ [targetBranch] @ tags;
               versions = Join versionList '',''
           in case flagsVars of
                None \<Rightarrow> (Panic ''assignment to entry in nil map'', flagsVars)
              | Some m \<Rightarrow>
                  (let flagsVars' = Some (m(''versions'' \<mapsto> versions))
                   in (Returned (Parse L b flagsVars'), flagsVars'))))"

text \<open>\<open>SetFlagsVariables\<close> replaces the global.\<close>

definition SetFlagsVariables ::
  "(string \<rightharpoonup> string) option \<Rightarrow> (string \<rightharpoonup> string) option \<Rightarrow> (string \<rightharpoonup> string) option" where
  "SetFlagsVariables vars flagsVars = vars"

text \<open>Libraries for the example, where no version is ever parsed.\<close>

definition no_libs :: "(unit, unit, unit) libs" where
  "no_libs = \<lparr>NewVersion = (\<lambda>s. Inl ''Invalid Semantic Version''), Original = (\<lambda>v. []),
     Major = (\<lambda>v. 0), Minor = (\<lambda>v. 0), LessThan = (\<lambda>v v'. False), sort_reverse = (\<lambda>vs. vs),
     template_Parse = (\<lambda>s. Inr ()), template_Execute = (\<lambda>t vars. Inr []),
     yaml_Unmarshal = (\<lambda>b. Inr ())\<rparr>"

section \<open>Adaptive dispatcher: \<open>Backend.Dispatch\<close>\<close>

text \<open>
  \<open>backend_test.go\<close> drives a \<open>Backend\<close> through \<open>Dispatch\<close>.  The types are those the
  test uses; the worker is a function that may keep state of its own (the test workers count
  their calls), so it takes that state and returns it.
\<close>

record WorkerInput =
  URL :: string

record 'w Backend =
  MinWorkers :: int
  MaxWorkers :: int
  Worker :: "'w \<Rightarrow> WorkerInput \<Rightarrow> WorkerError option \<times> 'w"

text \<open>
  Modelled from the spec: the context handed to \<open>Dispatch\<close>, which is not in the sources.
  The spec says that a canceled or expired context short-circuits Dispatch and yields a
  distinguishable canceled/deadline error: a context never ends (\<open>Background\<close>), or can
  end by its deadline or by the caller's cancel; \<open>ctx_Err\<close> is the error it then reports.
  Time is not modelled: when a context ends is the schedule's choice.
\<close>

datatype Context = Background | WithTimeout | WithCancel

fun ctx_Err :: "Context \<Rightarrow> go_error option" where
  "ctx_Err Background = None"
| "ctx_Err WithTimeout = Some DeadlineExceeded"
| "ctx_Err WithCancel = Some Canceled"

text \<open>
  Modelled from the spec: the state of one \<open>Dispatch\<close> call, which is not in the sources.
  The spec says: at most MaxWorkers tasks execute concurrently; each input maps to exactly one
  invocation of the Worker contract.  \<open>backlog\<close> holds the inputs not yet handed to a
  worker, \<open>inflight\<close> the invocations that have started and not returned (each with the
  value it will return), \<open>invocations\<close> counts the worker's calls, \<open>wstate\<close> is the worker's
  own state, \<open>result\<close> is \<open>None\<close> while Dispatch runs and then what it returns.
\<close>

record 'w dispatch =
  backlog :: "WorkerInput list"
  inflight :: "WorkerError option list"
  invocations :: nat
  wstate :: 'w
  result :: "WorkerError option option"

text \<open>
  Modelled from the spec: what can happen during a call.  A worker takes the next input
  (\<open>Invoke\<close>), the \<open>i\<close>-th running invocation returns (\<open>Return i\<close>), the context ends
  (\<open>CtxDone\<close>), or Dispatch sees that nothing is left (\<open>Finish\<close>).  The order of these is
  not fixed by the program (workers run in parallel): a schedule is a list of occurrences, and
  properties are stated for every schedule.
\<close>

datatype occurrence = Invoke | Return nat | CtxDone | Finish

definition init :: "WorkerInput list \<Rightarrow> 'w \<Rightarrow> 'w dispatch" where
  "init inputs w = \<lparr>backlog = inputs, inflight = [], invocations = 0, wstate = w, result = None\<rparr>"

text \<open>
  Modelled from the spec: one occurrence, which is not in the sources.  The spec says: the
  first non-nil WorkerError returned by any invocation cancels outstanding work and becomes
  the Dispatch result; a canceled or expired context short-circuits Dispatch and yields a
  canceled/deadline error.  An occurrence that cannot happen in a state leaves it unchanged:
  an input is taken only while Dispatch runs and fewer than MaxWorkers invocations are under
  way, and once the result is set no input is taken any more.
\<close>

definition step :: "'w Backend \<Rightarrow> Context \<Rightarrow> occurrence \<Rightarrow> 'w dispatch \<Rightarrow> 'w dispatch" where
  "step b ctx oc s =
     (case oc of
        Invoke \<Rightarrow>
          (case backlog s of
             [] \<Rightarrow> s
           | x # xs \<Rightarrow>
               if result s = None \<and> int (length (inflight s)) < MaxWorkers b then
                 (let rw = Worker b (wstate s) x
                  in s\<lparr>backlog := xs, inflight := inflight s @ [fst rw],
                       invocations := invocations s + 1, wstate := snd rw\<rparr>)
               else s)
      | Return i \<Rightarrow>
          if i < length (inflight s) then
            (let s' = s\<lparr>inflight := take i (inflight s) @ drop (Suc i) (inflight s)\<rparr>
             in case inflight s ! i of
                  None \<Rightarrow> s'
                | Some e \<Rightarrow>
                    if result s = None then s'\<lparr>result := Some (Some e), backlog := []\<rparr>
                    else s')
          else s
      | CtxDone \<Rightarrow>
          (case ctx_Err ctx of
             None \<Rightarrow> s
           | Some e \<Rightarrow>
               if result s = None then s\<lparr>result := Some (Some (newerror e 0)), backlog := []\<rparr>
               else s)
      | Finish \<Rightarrow>
          if result s = None \<and> backlog s = [] \<and> inflight s = [] then s\<lparr>result := Some None\<rparr>
          else s)"

fun run :: "'w Backend \<Rightarrow> Context \<Rightarrow> occurrence list \<Rightarrow> 'w dispatch \<Rightarrow> 'w dispatch" where
  "run b ctx [] s = s"
| "run b ctx (oc # ocs) s = run b ctx ocs (step b ctx oc s)"

text \<open>
  Modelled from the spec: \<open>Dispatch\<close>, which is not in the sources.  The spec says that
  MinWorkers > MaxWorkers is an invalid configuration and must fail immediately and loudly
  (abnormal termination of the call), never attempt partial execution.  Under a schedule the
  call has panicked, has returned a result, or is still running when the schedule ends.
\<close>

datatype outcome = Panicked | Running | Returns "WorkerError option"

definition Dispatch ::
  "'w Backend \<Rightarrow> Context \<Rightarrow> WorkerInput list \<Rightarrow> 'w \<Rightarrow> occurrence list \<Rightarrow> outcome \<times> 'w dispatch" where
  "Dispatch b ctx inputs w ocs =
     (if MinWorkers b > MaxWorkers b then (Panicked, init inputs w)
      else
        (let s = run b ctx ocs (init inputs w)
         in (case result s of None \<Rightarrow> Running | Some r \<Rightarrow> Returns r, s)))"

text \<open>
  The schedule that lets the workers run to the end of a batch of at most \<open>n\<close> inputs: the
  running invocations return, then each remaining input is taken and its invocation returns,
  then Dispatch finishes.
\<close>

definition let_run :: "nat \<Rightarrow> occurrence list" where
  "let_run n = replicate n (Return 0) @ concat (replicate n [Invoke, Return 0]) @ [Finish]"

text \<open>
  The workers and inputs of \<open>backend_test.go\<close>.  Both workers count their calls in a
  global counter, here the worker's state; \<open>faultySender\<close> fails on the calls that bring the
  counter to 3, 5 and 8.  \<open>newWorkerInputsList\<close> is taken with \<open>randomizePaths\<close> false.
\<close>

definition shortSender :: "nat \<Rightarrow> WorkerInput \<Rightarrow> WorkerError option \<times> nat" where
  "shortSender shortSenderCallsCount message = (None, shortSenderCallsCount + 1)"

definition expectedError :: WorkerError where
  "expectedError = newerror (Error ''test'') 123"

definition faultySender :: "nat \<Rightarrow> WorkerInput \<Rightarrow> WorkerError option \<times> nat" where
  "faultySender faultySenderCallsCount message =
     (let count = faultySenderCallsCount + 1
      in (if count = 3 \<or> count = 5 \<or> count = 8 then Some expectedError else None, count))"

fun newWorkerInputsList :: "nat \<Rightarrow> string \<Rightarrow> WorkerInput list" where
  "newWorkerInputsList n serverURL = replicate n \<lparr>URL = serverURL @ ''/a''\<rparr>"

text \<open>
  The worker of the fail-fast property in general: it counts its calls as \<open>faultySender\<close> does
  and fails on the calls that bring the counter to 3, 5 and 8, with an error that may differ
  from call to call.  \<open>faultySender\<close> is the instance where every error is \<open>expectedError\<close>.
\<close>

definition faultyWith :: "(nat \<Rightarrow> WorkerError) \<Rightarrow> nat \<Rightarrow> WorkerInput \<Rightarrow> WorkerError option \<times> nat" where
  "faultyWith err callsCount message =
     (let count = callsCount + 1
      in (if count = 3 \<or> count = 5 \<or> count = 8 then Some (err count) else None, count))"

text \<open>The backends of the tests.\<close>

definition test_backend :: "int \<Rightarrow> int \<Rightarrow> (nat \<Rightarrow> WorkerInput \<Rightarrow> WorkerError option \<times> nat) \<Rightarrow> nat Backend" where
  "test_backend minWorkers maxWorkers f =
     \<lparr>MinWorkers = minWorkers, MaxWorkers = maxWorkers, Worker = f\<rparr>"

text \<open>Measures and invariants of a dispatch, used in the proofs.\<close>

definition room :: "'w dispatch \<Rightarrow> nat" where
  "room s = length (inflight s) + length (backlog s)"

definition idle :: "WorkerInput list \<Rightarrow> go_error \<Rightarrow> 'w dispatch \<Rightarrow> bool" where
  "idle inputs e s \<longleftrightarrow>
     invocations s = 0 \<and> inflight s = [] \<and>
     (case result s of None \<Rightarrow> backlog s = inputs
      | Some r \<Rightarrow> r = Some (newerror e 0))"

definition smooth :: "nat \<Rightarrow> 'w dispatch \<Rightarrow> bool" where
  "smooth n s \<longleftrightarrow>
     (\<forall>r \<in> set (inflight s). r = None) \<and>
     (case result s of
        None \<Rightarrow> invocations s + length (backlog s) = n
      | Some r \<Rightarrow> r = None \<and> backlog s = [] \<and> inflight s = [] \<and> invocations s = n)"

text \<open>
  The worker has been invoked on the first \<open>invocations\<close> inputs, once each and in their
  order, and while Dispatch runs the rest of the inputs is the backlog.
\<close>

definition served :: "'w Backend \<Rightarrow> WorkerInput list \<Rightarrow> 'w \<Rightarrow> 'w dispatch \<Rightarrow> bool" where
  "served b inputs w s \<longleftrightarrow>
     invocations s \<le> length inputs \<and>
     wstate s = foldl (\<lambda>w x. snd (Worker b w x)) w (take (invocations s) inputs) \<and>
     (case result s of None \<Rightarrow> backlog s = drop (invocations s) inputs | Some r \<Rightarrow> True)"

definition faultyE :: "(nat \<Rightarrow> WorkerError) \<Rightarrow> nat dispatch \<Rightarrow> bool" where
  "faultyE err s \<longleftrightarrow>
     wstate s = invocations s \<and>
     set (inflight s) \<subseteq> {None, Some (err 3), Some (err 5), Some (err 8)} \<and>
     invocations s + length (backlog s) \<le> 10 \<and>
     (case result s of
        None \<Rightarrow> invocations s + length (backlog s) = 10 \<and>
                (3 \<le> invocations s \<longrightarrow> (\<exists>r \<in> set (inflight s). r \<noteq> None))
      | Some r \<Rightarrow> (r = Some (err 3) \<or> r = Some (err 5) \<or> r = Some (err 8)) \<and> backlog s = [])"

section \<open>Properties of link validation\<close>

lemma clean_simps [simp]:
  "clean []" "clean (es @ fs) \<longleftrightarrow> clean es \<and> clean fs"
  "clean (e # es) \<longleftrightarrow> \<not> net_failed e \<and> clean es"
  by (auto simp: clean_def)

lemma log_emit [simp]: "log (emit e w) = log w @ [e]"
  by (simp add: emit_def)

lemma client_Do_log:
  "log (snd (client_Do cl m w)) = log w @ [Do m (cl (calls w) m)]"
  "fst (client_Do cl m w) = cl (calls w) m"
  by (simp_all add: client_Do_def Let_def)

lemma Intn_log [simp]: "log (snd (Intn rs n w)) = log w"
  by (simp add: Intn_def)

lemma loop_stop:
  "\<not> (status = StatusTooManyRequests \<and> attempts < length intervals - 1) \<Longrightarrow>
     doValidation_loop rs cl m status attempts w = (Resp status, w)"
  by (subst doValidation_loop.simps) auto

lemma loop_step:
  "status = StatusTooManyRequests \<and> attempts < length intervals - 1 \<Longrightarrow>
     doValidation_loop rs cl m status attempts w =
       (let jw = Intn rs (attempts + 1) w;
            w2 = emit (Sleep (intervals ! attempts + fst jw)) (snd jw);
            rw = client_Do cl m w2
        in case fst rw of
             NetErr e \<Rightarrow> (NetErr e, snd rw)
           | Resp s \<Rightarrow> doValidation_loop rs cl m s (attempts + 1) (emit Close (snd rw)))"
  by (subst doValidation_loop.simps) (simp only: if_True simp_thms)

lemma loop_log:
  "doValidation_loop rs cl m st a w = (r, w') \<Longrightarrow>
     \<exists>xs. log w' = log w @ xs \<and>
       (case r of Resp s \<Rightarrow> clean xs
        | NetErr e \<Rightarrow> \<exists>ys. xs = ys @ [Do m (NetErr e)] \<and> clean ys)"
proof (induction rs cl m st a w arbitrary: r w' rule: doValidation_loop.induct)
  case (1 rs cl m status attempts w)
  show ?case
  proof (cases "status = StatusTooManyRequests \<and> attempts < length intervals - 1")
    case False
    with "1.prems" show ?thesis
      by (auto simp: loop_stop)
  next
    case True
    define jw where "jw = Intn rs (attempts + 1) w"
    define w2 where "w2 = emit (Sleep (intervals ! attempts + fst jw)) (snd jw)"
    define rw where "rw = client_Do cl m w2"
    have step: "doValidation_loop rs cl m status attempts w =
       (case fst rw of NetErr e \<Rightarrow> (NetErr e, snd rw)
        | Resp s \<Rightarrow> doValidation_loop rs cl m s (attempts + 1) (emit Close (snd rw)))"
      unfolding jw_def w2_def rw_def using loop_step [OF True, of rs cl m w]
      by (simp only: Let_def)
    have lw2: "log w2 = log w @ [Sleep (intervals ! attempts + fst jw)]"
      by (simp add: w2_def jw_def)
    have lrw: "log (snd rw) = log w2 @ [Do m (fst rw)]"
      by (simp add: rw_def client_Do_log)
    show ?thesis
    proof (cases "fst rw")
      case (NetErr e)
      with step "1.prems" have "r = NetErr e" "w' = snd rw"
        by auto
      with lw2 lrw NetErr show ?thesis by simp
    next
      case (Resp s)
      with step "1.prems"
      have eq: "doValidation_loop rs cl m s (attempts + 1) (emit Close (snd rw)) = (r, w')"
        by auto
      from "1.IH" [OF True jw_def w2_def rw_def Resp eq]
      obtain xs where xs: "log w' = log (emit Close (snd rw)) @ xs"
        "case r of Resp s \<Rightarrow> clean xs
         | NetErr e \<Rightarrow> \<exists>ys. xs = ys @ [Do m (NetErr e)] \<and> clean ys"
        by blast
      show ?thesis
      proof (cases r)
        case (Resp s')
        with xs lw2 lrw \<open>fst rw = Resp s\<close> show ?thesis by simp
      next
        case (NetErr e)
        with xs obtain ys where "xs = ys @ [Do m (NetErr e)]" "clean ys" by auto
        with xs lw2 lrw \<open>fst rw = Resp s\<close> NetErr show ?thesis by simp
      qed
    qed
  qed
qed

lemma doValidation_log:
  assumes "doValidation rs cl m w = (r, w')"
  shows "\<exists>xs. log w' = log w @ Do m (cl (calls w) m) # xs \<and>
       (case r of Resp s \<Rightarrow> clean (Do m (cl (calls w) m) # xs)
        | NetErr e \<Rightarrow> \<exists>ys. Do m (cl (calls w) m) # xs = ys @ [Do m (NetErr e)] \<and> clean ys)"
proof (cases "cl (calls w) m")
  case (NetErr e)
  with assms have "r = NetErr e" "w' = snd (client_Do cl m w)"
    by (auto simp: doValidation_def Let_def client_Do_log)
  with NetErr show ?thesis by (simp add: client_Do_log)
next
  case (Resp s)
  with assms
  have eq: "doValidation_loop rs cl m s 0 (emit Close (snd (client_Do cl m w))) = (r, w')"
    by (auto simp: doValidation_def Let_def client_Do_log)
  from loop_log [OF eq] obtain xs where
    xs: "log w' = log (emit Close (snd (client_Do cl m w))) @ xs"
        "case r of Resp s \<Rightarrow> clean xs
         | NetErr e \<Rightarrow> \<exists>ys. xs = ys @ [Do m (NetErr e)] \<and> clean ys"
    by blast
  show ?thesis
  proof (cases r)
    case (Resp s')
    with xs \<open>cl (calls w) m = Resp s\<close> show ?thesis by (simp add: client_Do_log)
  next
    case (NetErr e)
    with xs obtain ys where ys: "xs = ys @ [Do m (NetErr e)]" "clean ys" by auto
    have a: "Do m (cl (calls w) m) # Close # xs = (Do m (cl (calls w) m) # Close # ys) @ [Do m (NetErr e)]"
      using ys by simp
    have b: "clean (Do m (cl (calls w) m) # Close # ys)"
      using ys Resp by simp
    have c: "log w' = log w @ Do m (cl (calls w) m) # Close # xs"
      using xs by (simp add: client_Do_log)
    show ?thesis
      unfolding NetErr reply.case
      by (rule exI [of _ "Close # xs"], rule conjI [OF c], rule exI [of _ "Do m (cl (calls w) m) # Close # ys"], rule conjI [OF a b])
  qed
qed


lemma Validate_request_net:
  assumes run: "Validate_request ev cl vt w = (res, w')"
    and cl: "clean (log w)" and nc: "\<not> clean (log w')"
  shows "res = None \<and> (\<exists>es m e. log w' = es @ [Do m (NetErr e), Warning])"
proof (cases "NewRequestWithContext ev HEAD (String (LinkUrl vt))")
  case (Some err)
  with run have "w' = w" by (simp add: Validate_request_def)
  with cl nc show ?thesis by simp
next
  case None
  obtain r1 w1 where d1: "doValidation (rand_src ev) cl HEAD w = (r1, w1)"
    by (cases "doValidation (rand_src ev) cl HEAD w")
  from doValidation_log [OF d1] obtain xs where
    xs: "log w1 = log w @ Do HEAD (cl (calls w) HEAD) # xs"
      "case r1 of Resp s \<Rightarrow> clean (Do HEAD (cl (calls w) HEAD) # xs)
        | NetErr e \<Rightarrow> \<exists>ys. Do HEAD (cl (calls w) HEAD) # xs = ys @ [Do HEAD (NetErr e)] \<and> clean ys"
    by blast
  show ?thesis
  proof (cases r1)
    case (NetErr e)
    with run None d1 have r: "res = None" "w' = emit Warning w1"
      by (simp_all add: Validate_request_def Let_def)
    from xs NetErr obtain ys where
      "Do HEAD (cl (calls w) HEAD) # xs = ys @ [Do HEAD (NetErr e)]" by auto
    with xs(1) r have "log w' = (log w @ ys) @ [Do HEAD (NetErr e), Warning]" by simp
    with r show ?thesis by blast
  next
    case (Resp s)
    with xs have c1: "clean (log w1)" using cl by simp
    show ?thesis
    proof (cases "error_status s")
      case False
      with run None d1 Resp have "w' = w1"
        by (simp add: Validate_request_def Let_def)
      with c1 nc show ?thesis by simp
    next
      case True
      show ?thesis
      proof (cases "NewRequestWithContext ev GET (String (LinkUrl vt))")
        case (Some err)
        with run None d1 Resp True have "w' = w1"
          by (simp add: Validate_request_def Let_def)
        with c1 nc show ?thesis by simp
      next
        case None2: None
        obtain r2 w2 where d2: "doValidation (rand_src ev) cl GET w1 = (r2, w2)"
          by (cases "doValidation (rand_src ev) cl GET w1")
        from doValidation_log [OF d2] obtain zs where
          zs: "log w2 = log w1 @ Do GET (cl (calls w1) GET) # zs"
            "case r2 of Resp s \<Rightarrow> clean (Do GET (cl (calls w1) GET) # zs)
              | NetErr e \<Rightarrow> \<exists>ys. Do GET (cl (calls w1) GET) # zs = ys @ [Do GET (NetErr e)] \<and> clean ys"
          by blast
        show ?thesis
        proof (cases r2)
          case (NetErr e)
          with run None None2 d1 d2 Resp True have r: "res = None" "w' = emit Warning w2"
            by (simp_all add: Validate_request_def Let_def)
          from zs NetErr obtain ys where
            "Do GET (cl (calls w1) GET) # zs = ys @ [Do GET (NetErr e)]" by auto
          with zs(1) r have "log w' = (log w1 @ ys) @ [Do GET (NetErr e), Warning]" by simp
          with r show ?thesis by blast
        next
          case Resp2: (Resp s2)
          with zs c1 have c2: "clean (log w2)" by simp
          from run None None2 d1 d2 Resp True Resp2
          have "w' = w2 \<or> w' = emit Warning w2"
            by (simp add: Validate_request_def Let_def split: if_splits)
          with c2 nc show ?thesis by auto
        qed
      qed
    qed
  qed
qed

lemma Validate_cases:
  "Validate ev v t w = (None, w) \<or> (\<exists>ty. t = OtherTask ty \<and> Validate ev v t w = (Some (''incorrect validation task: '' @ ty @ [CHR 0x0A]), w))
   \<or> (\<exists>cl vt. t = VTask vt \<and> Validate ev v t w = Validate_request ev cl vt w)"
  by (auto simp: Validate_def Let_def split: task.splits option.splits sum.splits)

text \<open>
  C7: when an HTTP attempt of a validation task fails at the network level (the client
  returns an error, not a status), \<open>Validate\<close> returns nil, and the failed request is the
  last one it makes, followed at once by the warning.
\<close>

theorem Validate_network_failure_soft:
  assumes "Validate ev v t w = (res, w')"
    and "\<not> list_ex net_failed (log w)" and "list_ex net_failed (log w')"
  shows "res = None \<and> (\<exists>es m e. log w' = es @ [Do m (NetErr e), Warning])"
proof -
  from assms have c: "clean (log w)" "\<not> clean (log w')" by (simp_all add: clean_def)
  from Validate_cases [of ev v t w] show ?thesis
  proof (elim disjE exE conjE)
    assume "Validate ev v t w = (None, w)"
    with assms(1) c show ?thesis by simp
  next
    fix ty assume "Validate ev v t w = (Some (''incorrect validation task: '' @ ty @ [CHR 0x0A]), w)"
    with assms(1) c show ?thesis by simp
  next
    fix cl vt assume "Validate ev v t w = Validate_request ev cl vt w"
    with assms(1) have "Validate_request ev cl vt w = (res, w')" by simp
    from Validate_request_net [OF this c] show ?thesis .
  qed
qed

lemma Validate_request_auth:
  assumes run: "Validate_request ev cl vt w = (res, w')"
    and hd: "log w' = log w @ Do HEAD (Resp s) # es"
    and s: "s = StatusUnauthorized \<or> s = StatusForbidden"
  shows "res = None \<and> es = [Close]"
proof (cases "NewRequestWithContext ev HEAD (String (LinkUrl vt))")
  case (Some err)
  with run have "w' = w" by (simp add: Validate_request_def)
  with hd show ?thesis by simp
next
  case None
  obtain r1 w1 where d1: "doValidation (rand_src ev) cl HEAD w = (r1, w1)"
    by (cases "doValidation (rand_src ev) cl HEAD w")
  from doValidation_log [OF d1] obtain xs where
    xs: "log w1 = log w @ Do HEAD (cl (calls w) HEAD) # xs" by blast
  have grow: "\<exists>ys. log w' = log w1 @ ys"
  proof (cases r1)
    case (NetErr e)
    with run None d1 show ?thesis by (auto simp: Validate_request_def Let_def)
  next
    case (Resp s1)
    show ?thesis
    proof (cases "error_status s1 \<and> NewRequestWithContext ev GET (String (LinkUrl vt)) = None")
      case False
      with run None d1 Resp have "w' = w1"
        by (auto simp: Validate_request_def Let_def split: option.splits if_splits)
      then show ?thesis by simp
    next
      case True
      obtain r2 w2 where d2: "doValidation (rand_src ev) cl GET w1 = (r2, w2)"
        by (cases "doValidation (rand_src ev) cl GET w1")
      from doValidation_log [OF d2] obtain zs where
        "log w2 = log w1 @ Do GET (cl (calls w1) GET) # zs" by blast
      moreover from run None d1 d2 Resp True have "w' = w2 \<or> w' = emit Warning w2"
        by (auto simp: Validate_request_def Let_def split: reply.splits if_splits)
      ultimately show ?thesis by auto
    qed
  qed
  with xs hd have first: "cl (calls w) HEAD = Resp s" by auto
  from s have n429: "\<not> (s = StatusTooManyRequests \<and> 0 < length intervals - 1)"
    and ne: "\<not> error_status s"
    by (auto simp: StatusTooManyRequests_def StatusUnauthorized_def StatusForbidden_def
        error_status_def)
  from first have "doValidation (rand_src ev) cl HEAD w
      = (Resp s, emit Close (snd (client_Do cl HEAD w)))"
    by (simp add: doValidation_def Let_def client_Do_log loop_stop [OF n429])
  with run None ne have "res = None" "w' = emit Close (snd (client_Do cl HEAD w))"
    by (simp_all add: Validate_request_def Let_def)
  with hd first show ?thesis by (simp add: client_Do_log)
qed

text \<open>
  C6: when the first thing a validation does is a HEAD request answered with 401 or 403,
  that request is the only one (no GET follows), the only further effect is closing the
  response body, and \<open>Validate\<close> returns nil.
\<close>

theorem Validate_unauthorized_single_request:
  assumes "Validate ev v t w = (res, w')"
    and "log w' = log w @ Do HEAD (Resp s) # es"
    and "s = StatusUnauthorized \<or> s = StatusForbidden"
  shows "res = None \<and> es = [Close] \<and> requests (Do HEAD (Resp s) # es) = [HEAD]"
proof -
  from Validate_cases [of ev v t w] have "res = None \<and> es = [Close]"
  proof (elim disjE exE conjE)
    assume "Validate ev v t w = (None, w)"
    with assms(1,2) show ?thesis by simp
  next
    fix ty assume "Validate ev v t w = (Some (''incorrect validation task: '' @ ty @ [CHR 0x0A]), w)"
    with assms(1,2) show ?thesis by simp
  next
    fix cl vt assume "Validate ev v t w = Validate_request ev cl vt w"
    with assms(1) have "Validate_request ev cl vt w = (res, w')" by simp
    from Validate_request_auth [OF this assms(2,3)] show ?thesis .
  qed
  then show ?thesis by simp
qed


lemmas eval_simps = Validate_def Validate_request_def doValidation_def doValidation_loop.simps
  client_Do_def Intn_def emit_def world0_def test_env_def test_worker_def test_task_def
  intervals_def StatusTooManyRequests_def StatusForbidden_def StatusUnauthorized_def
  error_status_def Let_def

text \<open>
  C5: a link whose server answers 429 to every request.  \<open>Validate\<close> returns nil after four
  HEAD and four GET requests; between the requests of one verb it sleeps three times, on
  the table's entries 1, 5 and 10 plus a jitter of at most the attempt index.  The loop stops
  at \<open>len(intervals)-1\<close>: the table's last entry, 20, is never slept on.
\<close>

theorem Validate_too_many_requests_run:
  "fst (Validate (test_env rs) (test_worker (\<lambda>n m. Resp 429)) test_task world0) = None \<and>
   requests (log (snd (Validate (test_env rs) (test_worker (\<lambda>n m. Resp 429)) test_task world0)))
     = [HEAD, HEAD, HEAD, HEAD, GET, GET, GET, GET] \<and>
   sleeps (log (snd (Validate (test_env rs) (test_worker (\<lambda>n m. Resp 429)) test_task world0)))
     = [1, 5 + rs 1 mod 2, 10 + rs 2 mod 3, 1, 5 + rs 4 mod 2, 10 + rs 5 mod 3] \<and>
   20 \<notin> set (sleeps (log (snd (Validate (test_env rs) (test_worker (\<lambda>n m. Resp 429)) test_task world0))))"
proof -
  have e: "Suc (Suc 0) = 2" "Suc (Suc 2) = 4" "Suc 4 = 5" "rs (Suc 0) = rs 1"
    by simp_all
  have "Validate (test_env rs) (test_worker (\<lambda>n m. Resp 429)) test_task world0 =
    (None, \<lparr>calls = 8, draws = 6, log =
      [Do HEAD (Resp 429), Close, Sleep 1, Do HEAD (Resp 429), Close,
       Sleep (5 + rs (Suc 0) mod Suc (Suc 0)), Do HEAD (Resp 429), Close,
       Sleep (10 + rs (Suc (Suc 0)) mod 3), Do HEAD (Resp 429), Close,
       Do GET (Resp 429), Close, Sleep 1, Do GET (Resp 429), Close,
       Sleep (5 + rs (Suc (Suc (Suc (Suc 0)))) mod Suc (Suc 0)), Do GET (Resp 429), Close,
       Sleep (10 + rs (Suc (Suc (Suc (Suc (Suc 0))))) mod 3), Do GET (Resp 429), Close, Warning]\<rparr>)"
    by (simp add: eval_simps)
  then have run: "Validate (test_env rs) (test_worker (\<lambda>n m. Resp 429)) test_task world0 =
    (None, \<lparr>calls = 8, draws = 6, log =
      [Do HEAD (Resp 429), Close, Sleep 1, Do HEAD (Resp 429), Close,
       Sleep (5 + rs 1 mod 2), Do HEAD (Resp 429), Close,
       Sleep (10 + rs 2 mod 3), Do HEAD (Resp 429), Close,
       Do GET (Resp 429), Close, Sleep 1, Do GET (Resp 429), Close,
       Sleep (5 + rs 4 mod 2), Do GET (Resp 429), Close,
       Sleep (10 + rs 5 mod 3), Do GET (Resp 429), Close, Warning]\<rparr>)"
    by (simp only: e)
  have "rs 1 mod 2 < 2" "rs 2 mod 3 < 3" "rs 4 mod 2 < 2" "rs 5 mod 3 < 3" by simp_all
  then have "5 + rs 1 mod 2 \<noteq> 20" "10 + rs 2 mod 3 \<noteq> 20" "5 + rs 4 mod 2 \<noteq> 20" "10 + rs 5 mod 3 \<noteq> 20"
    by linarith+
  then show ?thesis unfolding run by simp
qed

theorem Validate_unauthorized_single_request_witness:
  "Validate (test_env (\<lambda>i. 0)) (test_worker (\<lambda>n m. Resp 401)) test_task world0
     = (None, \<lparr>calls = 1, draws = 0, log = [Do HEAD (Resp 401), Close]\<rparr>) \<and>
   requests [Do HEAD (Resp 401), Close] = [HEAD]"
  using Validate_unauthorized_single_request [of "test_env (\<lambda>i. 0)"
      "test_worker (\<lambda>n m. Resp 401)" test_task world0 None
      "\<lparr>calls = 1, draws = 0, log = [Do HEAD (Resp 401), Close]\<rparr>" 401 "[Close]"]
  by (simp add: eval_simps)

theorem Validate_network_failure_soft_witness:
  "Validate (test_env (\<lambda>i. 0)) (test_worker (\<lambda>n m. NetErr ''fake_error'')) test_task world0
     = (None, \<lparr>calls = 1, draws = 0, log = [Do HEAD (NetErr ''fake_error''), Warning]\<rparr>) \<and>
   \<not> list_ex net_failed (log world0) \<and>
   list_ex net_failed [Do HEAD (NetErr ''fake_error''), Warning]"
  using Validate_network_failure_soft [of "test_env (\<lambda>i. 0)"
      "test_worker (\<lambda>n m. NetErr ''fake_error'')" test_task world0 None
      "\<lparr>calls = 1, draws = 0, log = [Do HEAD (NetErr ''fake_error''), Warning]\<rparr>"]
  by (simp add: eval_simps)

section \<open>Properties of download scheduling\<close>

text \<open>
  C8: \<open>Schedule\<close> returns a non-nil error exactly when the queue's \<open>AddTask\<close> returns false,
  and nil when the task is accepted; the queue is left as \<open>AddTask\<close> left it.
\<close>

theorem Schedule_error_iff_rejected:
  "(fst (Schedule addTask q src dst) \<noteq> None) =
     (\<not> fst (addTask q \<lparr>source = src, destinationPath = dst\<rparr>))
   \<and> (fst (Schedule addTask q src dst) = None) =
     fst (addTask q \<lparr>source = src, destinationPath = dst\<rparr>)
   \<and> snd (Schedule addTask q src dst) = snd (addTask q \<lparr>source = src, destinationPath = dst\<rparr>)"
  by (simp add: Schedule_def Let_def)

section \<open>Properties of the document worker\<close>





section \<open>Properties of manifest parsing\<close>

text \<open>
  C10: when the versions are resolved, \<open>ParseWithMetadata\<close> stores the joined version list
  (the target branch first) under \<open>versions\<close> in \<open>flagsVars\<close> and parses with the updated
  map; with \<open>flagsVars\<close> nil (\<open>SetFlagsVariables\<close> not called) the call panics on the
  assignment instead of returning.
\<close>

theorem ParseWithMetadata_nil_flagsVars_panics:
  "getLastNVersions L allTags nTags = Returned (Inr tags) \<Longrightarrow>
     fst (ParseWithMetadata L b allTags nTags targetBranch None)
       = Panic ''assignment to entry in nil map''
     \<and> ParseWithMetadata L b allTags nTags targetBranch (Some m)
       = (Returned (Parse L b (Some (m(''versions'' \<mapsto> Join (targetBranch # tags) '','')))),
          Some (m(''versions'' \<mapsto> Join (targetBranch # tags) '','')))"
  by (simp add: ParseWithMetadata_def Let_def)

theorem ParseWithMetadata_nil_flagsVars_panics_witness:
  "getLastNVersions no_libs [''v1.0.0''] 0 = Returned (Inr []) \<and>
   fst (ParseWithMetadata no_libs ''structure:'' [''v1.0.0''] 0 ''master'' None)
     = Panic ''assignment to entry in nil map''"
  using ParseWithMetadata_nil_flagsVars_panics [of no_libs "[''v1.0.0'']" 0 "[]" "''structure:''" "''master''"]
  by (simp add: getLastNVersions_def)

section \<open>Properties of the dispatcher\<close>

lemma run_append: "run b ctx (xs @ ys) s = run b ctx ys (run b ctx xs s)"
  by (induction xs arbitrary: s) simp_all


lemma step_Invoke:
  "step b ctx Invoke s =
     (case backlog s of [] \<Rightarrow> s
      | x # xs \<Rightarrow>
          if result s = None \<and> int (length (inflight s)) < MaxWorkers b then
            s\<lparr>backlog := xs, inflight := inflight s @ [fst (Worker b (wstate s) x)],
               invocations := invocations s + 1, wstate := snd (Worker b (wstate s) x)\<rparr>
          else s)"
  by (simp add: step_def Let_def split: list.splits)

lemma step_Return:
  "step b ctx (Return i) s =
     (if i < length (inflight s) then
        (case inflight s ! i of
           None \<Rightarrow> s\<lparr>inflight := take i (inflight s) @ drop (Suc i) (inflight s)\<rparr>
         | Some e \<Rightarrow>
             if result s = None
             then s\<lparr>inflight := take i (inflight s) @ drop (Suc i) (inflight s),
                    result := Some (Some e), backlog := []\<rparr>
             else s\<lparr>inflight := take i (inflight s) @ drop (Suc i) (inflight s)\<rparr>)
      else s)"
  by (simp add: step_def Let_def split: option.splits)

lemma step_CtxDone:
  "step b ctx CtxDone s =
     (case ctx_Err ctx of None \<Rightarrow> s
      | Some e \<Rightarrow>
          if result s = None then s\<lparr>result := Some (Some (newerror e 0)), backlog := []\<rparr>
          else s)"
  by (simp add: step_def)

lemma step_Finish:
  "step b ctx Finish s =
     (if result s = None \<and> backlog s = [] \<and> inflight s = [] then s\<lparr>result := Some None\<rparr>
      else s)"
  by (simp add: step_def)

lemmas step_simps = step_Invoke step_Return step_CtxDone step_Finish

lemma set_remove_nth_subset: "set (take i xs @ drop (Suc i) xs) \<subseteq> set xs"
  by (auto dest: in_set_takeD in_set_dropD)

lemma set_remove_nth_keeps:
  assumes "x \<in> set xs" "i < length xs" "xs ! i \<noteq> x"
  shows "x \<in> set (take i xs @ drop (Suc i) xs)"
proof -
  have "set xs = set (take i xs @ xs ! i # drop (Suc i) xs)"
    using id_take_nth_drop [OF assms(2)] by (rule arg_cong)
  also have "\<dots> = insert (xs ! i) (set (take i xs @ drop (Suc i) xs))"
    by simp
  finally show ?thesis using assms(1,3) by auto
qed

lemma step_room: "room (step b ctx oc s) \<le> room s"
  by (cases oc) (auto simp: step_simps room_def split: list.splits option.splits)

lemma run_room: "room (run b ctx ocs s) \<le> room s"
proof (induction ocs arbitrary: s)
  case Nil
  show ?case by simp
next
  case (Cons oc ocs)
  have "room (run b ctx ocs (step b ctx oc s)) \<le> room (step b ctx oc s)" by (rule Cons.IH)
  also have "\<dots> \<le> room s" by (rule step_room)
  finally show ?case by simp
qed

text \<open>Once Dispatch has its result, nothing is invoked any more and the result stays.\<close>

lemma step_returned:
  "result s \<noteq> None \<Longrightarrow>
     result (step b ctx oc s) = result s \<and> invocations (step b ctx oc s) = invocations s
     \<and> backlog (step b ctx oc s) = backlog s"
  by (cases oc) (auto simp: step_simps split: list.splits option.splits)

lemma run_returned:
  "result s \<noteq> None \<Longrightarrow>
     result (run b ctx ocs s) = result s \<and> invocations (run b ctx ocs s) = invocations s
     \<and> backlog (run b ctx ocs s) = backlog s"
proof (induction ocs arbitrary: s)
  case Nil
  show ?case by simp
next
  case (Cons oc ocs)
  from step_returned [OF Cons.prems, of b ctx oc]
  have *: "result (step b ctx oc s) = result s" "invocations (step b ctx oc s) = invocations s"
    "backlog (step b ctx oc s) = backlog s" by simp_all
  with Cons.prems have "result (step b ctx oc s) \<noteq> None" by simp
  from Cons.IH [OF this] * show ?case by simp
qed

text \<open>Letting the workers run: the schedule \<open>let_run n\<close> brings any dispatch to its result.\<close>

lemma drain_inflight:
  "length (inflight s) \<le> n \<Longrightarrow> inflight (run b ctx (replicate n (Return 0)) s) = []"
proof (induction n arbitrary: s)
  case 0
  then show ?case by simp
next
  case (Suc n)
  have "length (inflight (step b ctx (Return 0) s)) \<le> n"
    using Suc.prems by (auto simp: step_simps split: option.splits)
  from Suc.IH [OF this] show ?case by simp
qed

lemma serve_backlog:
  assumes "1 \<le> MaxWorkers b"
  shows "inflight s = [] \<Longrightarrow> result s \<noteq> None \<or> length (backlog s) \<le> n \<Longrightarrow>
     inflight (run b ctx (concat (replicate n [Invoke, Return 0])) s) = [] \<and>
     (result (run b ctx (concat (replicate n [Invoke, Return 0])) s) \<noteq> None \<or>
      backlog (run b ctx (concat (replicate n [Invoke, Return 0])) s) = [])"
proof (induction n arbitrary: s)
  case 0
  then show ?case by auto
next
  case (Suc n)
  let ?s' = "step b ctx (Return 0) (step b ctx Invoke s)"
  have "inflight ?s' = [] \<and> (result ?s' \<noteq> None \<or> length (backlog ?s') \<le> n)"
    using Suc.prems assms by (auto simp: step_simps split: list.splits option.splits)
  then have "inflight ?s' = []" "result ?s' \<noteq> None \<or> length (backlog ?s') \<le> n" by simp_all
  from Suc.IH [OF this] show ?case by simp
qed

lemma let_run_returns:
  assumes "1 \<le> MaxWorkers b" "room s \<le> n"
  shows "result (run b ctx (let_run n) s) \<noteq> None"
proof -
  let ?s1 = "run b ctx (replicate n (Return 0)) s"
  let ?s2 = "run b ctx (concat (replicate n [Invoke, Return 0])) ?s1"
  from assms(2) have "length (inflight s) \<le> n" by (simp add: room_def)
  then have i1: "inflight ?s1 = []" by (rule drain_inflight)
  have "room ?s1 \<le> room s" by (rule run_room)
  with assms(2) have "length (backlog ?s1) \<le> n" by (simp add: room_def)
  then have "result ?s1 \<noteq> None \<or> length (backlog ?s1) \<le> n" by simp
  from serve_backlog [OF assms(1) i1 this, of ctx]
  have "inflight ?s2 = []" "result ?s2 \<noteq> None \<or> backlog ?s2 = []" by simp_all
  then have "result (step b ctx Finish ?s2) \<noteq> None"
    by (auto simp: step_simps)
  then show ?thesis by (simp add: let_run_def run_append)
qed

lemma CtxDone_notin_let_run: "CtxDone \<notin> set (let_run n)"
  by (induction n) (auto simp: let_run_def)

lemma faultySender_faultyWith: "faultySender = faultyWith (\<lambda>count. expectedError)"
  by (rule ext, rule ext) (simp add: faultySender_def faultyWith_def)

lemma served_step:
  assumes "served b inputs w s"
  shows "served b inputs w (step b ctx oc s)"
proof (cases oc)
  case Invoke
  show ?thesis
  proof (cases "backlog s")
    case Nil
    with assms Invoke show ?thesis by (simp add: step_simps)
  next
    case (Cons x xs)
    show ?thesis
    proof (cases "result s = None \<and> int (length (inflight s)) < MaxWorkers b")
      case False
      with assms Invoke Cons show ?thesis by (auto simp: step_simps)
    next
      case True
      let ?k = "invocations s"
      from assms True Cons have d: "drop ?k inputs = x # xs" by (simp add: served_def)
      then have k: "?k < length inputs" by (cases "?k < length inputs") auto
      from Cons_nth_drop_Suc [OF k] d have x: "inputs ! ?k = x" and xs: "drop (Suc ?k) inputs = xs"
        by simp_all
      have t: "take (Suc ?k) inputs = take ?k inputs @ [x]"
        using take_Suc_conv_app_nth [OF k] x by simp
      have st: "step b ctx oc s = s\<lparr>backlog := xs, inflight := inflight s @ [fst (Worker b (wstate s) x)],
               invocations := ?k + 1, wstate := snd (Worker b (wstate s) x)\<rparr>"
        using Invoke Cons True by (simp add: step_simps)
      show ?thesis unfolding st using assms True k xs t
        by (simp add: served_def)
    qed
  qed
next
  case (Return i)
  with assms show ?thesis
    by (auto simp: step_simps served_def split: option.splits)
next
  case CtxDone
  with assms show ?thesis
    by (auto simp: step_simps served_def split: option.splits)
next
  case Finish
  with assms show ?thesis
    by (auto simp: step_simps served_def split: option.splits)
qed

lemma served_run: "served b inputs w s \<Longrightarrow> served b inputs w (run b ctx ocs s)"
  by (induction ocs arbitrary: s) (simp_all add: served_step)

lemma served_init: "served b inputs w (init inputs w)"
  by (simp add: served_def init_def)

lemma Dispatch_run:
  "\<not> MaxWorkers b < MinWorkers b \<Longrightarrow>
     Dispatch b ctx inputs w ocs =
       (case result (run b ctx ocs (init inputs w)) of None \<Rightarrow> Running | Some r \<Rightarrow> Returns r,
        run b ctx ocs (init inputs w))"
  by (simp add: Dispatch_def Let_def)

lemma Dispatch_Running:
  "\<not> MaxWorkers b < MinWorkers b \<Longrightarrow>
     (fst (Dispatch b ctx inputs w ocs) = Running) = (result (run b ctx ocs (init inputs w)) = None)"
  by (simp add: Dispatch_run split: option.splits)

lemma Dispatch_fail_fast:
  assumes mm: "\<not> MaxWorkers b < MinWorkers b"
    and r: "fst (Dispatch b ctx inputs w ocs) = Running"
    and i: "i < length (inflight (snd (Dispatch b ctx inputs w ocs)))"
    and e: "inflight (snd (Dispatch b ctx inputs w ocs)) ! i = Some e"
  shows "fst (Dispatch b ctx inputs w (ocs @ Return i # later)) = Returns (Some e)"
    and "backlog (snd (Dispatch b ctx inputs w (ocs @ Return i # later))) = []"
    and "invocations (snd (Dispatch b ctx inputs w (ocs @ Return i # later)))
           = invocations (snd (Dispatch b ctx inputs w ocs))"
proof -
  let ?s = "run b ctx ocs (init inputs w)"
  let ?s' = "step b ctx (Return i) ?s"
  from r mm have n: "result ?s = None" by (simp add: Dispatch_Running)
  from i e mm have i': "i < length (inflight ?s)" and e': "inflight ?s ! i = Some e"
    by (simp_all add: Dispatch_run)
  from n i' e' have s': "result ?s' = Some (Some e)" "backlog ?s' = []"
    "invocations ?s' = invocations ?s"
    by (simp_all add: step_simps)
  then have "result ?s' \<noteq> None" by simp
  from run_returned [OF this, of b ctx later] s'
  have "result (run b ctx later ?s') = Some (Some e)" "backlog (run b ctx later ?s') = []"
    "invocations (run b ctx later ?s') = invocations ?s" by simp_all
  then show "fst (Dispatch b ctx inputs w (ocs @ Return i # later)) = Returns (Some e)"
    and "backlog (snd (Dispatch b ctx inputs w (ocs @ Return i # later))) = []"
    and "invocations (snd (Dispatch b ctx inputs w (ocs @ Return i # later)))
           = invocations (snd (Dispatch b ctx inputs w ocs))"
    using mm by (simp_all add: Dispatch_run run_append)
qed



text \<open>
  C2: with MinWorkers > MaxWorkers and a non-empty input list, Dispatch panics under every
  schedule; the worker is never invoked and its state is untouched.
\<close>

theorem Dispatch_wrong_range_panics:
  "MinWorkers b > MaxWorkers b \<Longrightarrow> inputs \<noteq> [] \<Longrightarrow>
     fst (Dispatch b ctx inputs w ocs) = Panicked \<and>
     invocations (snd (Dispatch b ctx inputs w ocs)) = 0 \<and>
     wstate (snd (Dispatch b ctx inputs w ocs)) = w"
  by (simp add: Dispatch_def init_def)


lemma idle_step:
  assumes "MaxWorkers b = 0" "inputs \<noteq> []" "ctx_Err ctx = Some e" "idle inputs e s"
  shows "idle inputs e (step b ctx oc s)"
    and "oc = CtxDone \<Longrightarrow> result (step b ctx oc s) \<noteq> None"
    and "result s \<noteq> None \<Longrightarrow> result (step b ctx oc s) \<noteq> None"
    and "oc \<noteq> CtxDone \<Longrightarrow> result (step b ctx oc s) = result s"
  using assms
  by (cases oc; auto simp: step_simps idle_def split: list.splits option.splits)+

lemma idle_run:
  assumes "MaxWorkers b = 0" "inputs \<noteq> []" "ctx_Err ctx = Some e"
  shows "idle inputs e s \<Longrightarrow>
     idle inputs e (run b ctx ocs s) \<and>
     (result (run b ctx ocs s) \<noteq> None) = (result s \<noteq> None \<or> CtxDone \<in> set ocs)"
proof (induction ocs arbitrary: s)
  case Nil
  then show ?case by simp
next
  case (Cons oc ocs)
  note st = idle_step [OF assms Cons.prems, of oc]
  from Cons.IH [OF st(1)]
  have ih: "idle inputs e (run b ctx ocs (step b ctx oc s))"
    "(result (run b ctx ocs (step b ctx oc s)) \<noteq> None) =
       (result (step b ctx oc s) \<noteq> None \<or> CtxDone \<in> set ocs)" by simp_all
  have "(result (step b ctx oc s) \<noteq> None) = (result s \<noteq> None \<or> oc = CtxDone)"
    using st(2,3,4) by (cases "oc = CtxDone") auto
  with ih show ?case by auto
qed

text \<open>
  C3: with MinWorkers = MaxWorkers = 0, a non-empty input list and a context that can end,
  no schedule invokes the worker, and the call returns exactly when the context ends, with
  the context's error (deadline exceeded or canceled) and code 0; until then it is running.
\<close>

theorem Dispatch_no_workers_needs_context:
  assumes "MinWorkers b = 0" "MaxWorkers b = 0" "inputs \<noteq> []" "ctx_Err ctx = Some e"
  shows "invocations (snd (Dispatch b ctx inputs w ocs)) = 0 \<and>
     fst (Dispatch b ctx inputs w ocs) =
       (if CtxDone \<in> set ocs then Returns (Some (newerror e 0)) else Running)"
proof -
  have "idle inputs e (init inputs w)" by (simp add: idle_def init_def)
  from idle_run [OF assms(2,3,4) this, of ocs]
  have i: "idle inputs e (run b ctx ocs (init inputs w))"
    and r: "(result (run b ctx ocs (init inputs w)) \<noteq> None) = (CtxDone \<in> set ocs)"
    by (simp_all add: init_def)
  show ?thesis
  proof (cases "result (run b ctx ocs (init inputs w))")
    case None
    with i r assms(1,2) show ?thesis by (simp add: Dispatch_def Let_def idle_def)
  next
    case (Some x)
    with i r assms(1,2) show ?thesis by (auto simp: Dispatch_def Let_def idle_def)
  qed
qed


lemma smooth_step:
  assumes "\<forall>w x. fst (Worker b w x) = None" "oc \<noteq> CtxDone" "smooth n s"
  shows "smooth n (step b ctx oc s)"
proof (cases oc)
  case Invoke
  with assms show ?thesis
    by (auto simp: step_simps smooth_def split: list.splits option.splits)
next
  case (Return i)
  have "set (take i (inflight s) @ drop (Suc i) (inflight s)) \<subseteq> set (inflight s)"
    by (rule set_remove_nth_subset)
  with assms(3) have "\<forall>r \<in> set (take i (inflight s) @ drop (Suc i) (inflight s)). r = None"
    unfolding smooth_def by blast
  then have rest: "\<forall>r \<in> set (take i (inflight s)) \<union> set (drop (Suc i) (inflight s)). r = None"
    by simp
  show ?thesis
  proof (cases "i < length (inflight s)")
    case False
    with assms(3) Return show ?thesis by (simp add: step_simps)
  next
    case True
    with assms(3) have "inflight s ! i = None"
      unfolding smooth_def using nth_mem by blast
    with True rest assms(3) Return show ?thesis
      by (auto simp: step_simps smooth_def split: option.splits)
  qed
next
  case CtxDone
  with assms show ?thesis by simp
next
  case Finish
  with assms show ?thesis
    by (auto simp: step_simps smooth_def split: list.splits option.splits)
qed

lemma smooth_run:
  assumes "\<forall>w x. fst (Worker b w x) = None"
  shows "CtxDone \<notin> set ocs \<Longrightarrow> smooth n s \<Longrightarrow> smooth n (run b ctx ocs s)"
proof (induction ocs arbitrary: s)
  case Nil
  then show ?case by simp
next
  case (Cons oc ocs)
  from Cons.prems have "oc \<noteq> CtxDone" "CtxDone \<notin> set ocs" by auto
  from Cons.IH [OF this(2) smooth_step [OF assms this(1) Cons.prems(2)]]
  show ?case by simp
qed

text \<open>
  C4: 20 inputs, MinWorkers = 0, MaxWorkers = 40, a worker that never fails, and a context
  that does not end during the call.  Under every schedule the worker's state is the one
  reached by invoking it on the first \<open>invocations\<close> inputs, once each in their order, and
  while Dispatch runs the backlog is exactly the rest of the inputs: no input is invoked
  twice and none is skipped.  If Dispatch has returned, it has returned nil after exactly 20
  invocations, with no invocation still under way, and the worker has been invoked once on
  each of the 20 inputs; and whatever happened first, once the workers are let run, Dispatch
  returns nil in that way.
\<close>

theorem Dispatch_adaptive_all_invoked_once:
  assumes "length inputs = 20" "MinWorkers b = 0" "MaxWorkers b = 40"
    "\<forall>w x. fst (Worker b w x) = None" "CtxDone \<notin> set ocs"
  shows "(fst (Dispatch b ctx inputs w ocs) \<noteq> Running \<longrightarrow>
       fst (Dispatch b ctx inputs w ocs) = Returns None \<and>
       invocations (snd (Dispatch b ctx inputs w ocs)) = 20 \<and>
       inflight (snd (Dispatch b ctx inputs w ocs)) = [] \<and>
       backlog (snd (Dispatch b ctx inputs w ocs)) = [] \<and>
       wstate (snd (Dispatch b ctx inputs w ocs)) = foldl (\<lambda>w x. snd (Worker b w x)) w inputs)
     \<and> invocations (snd (Dispatch b ctx inputs w ocs)) \<le> 20
     \<and> wstate (snd (Dispatch b ctx inputs w ocs)) =
         foldl (\<lambda>w x. snd (Worker b w x)) w
           (take (invocations (snd (Dispatch b ctx inputs w ocs))) inputs)
     \<and> (fst (Dispatch b ctx inputs w ocs) = Running \<longrightarrow>
         backlog (snd (Dispatch b ctx inputs w ocs)) =
           drop (invocations (snd (Dispatch b ctx inputs w ocs))) inputs)
     \<and> fst (Dispatch b ctx inputs w (ocs @ let_run 20)) = Returns None
     \<and> invocations (snd (Dispatch b ctx inputs w (ocs @ let_run 20))) = 20
     \<and> inflight (snd (Dispatch b ctx inputs w (ocs @ let_run 20))) = []
     \<and> wstate (snd (Dispatch b ctx inputs w (ocs @ let_run 20))) =
         foldl (\<lambda>w x. snd (Worker b w x)) w inputs"
proof -
  have mm: "\<not> MaxWorkers b < MinWorkers b" and one: "1 \<le> MaxWorkers b"
    using assms(2,3) by simp_all
  note D = Dispatch_run [OF mm]
  let ?s = "run b ctx ocs (init inputs w)"
  let ?t = "run b ctx (let_run 20) ?s"
  have "smooth 20 (init inputs w)" using assms(1) by (simp add: smooth_def init_def)
  then have s1: "smooth 20 ?s" by (rule smooth_run [OF assms(4,5)])
  then have s2: "smooth 20 ?t" by (rule smooth_run [OF assms(4) CtxDone_notin_let_run])
  have v1: "served b inputs w ?s" by (rule served_run [OF served_init])
  then have v2: "served b inputs w ?t" by (rule served_run)
  have "room ?s \<le> room (init inputs w)" by (rule run_room)
  then have "room ?s \<le> 20" using assms(1) by (simp add: room_def init_def)
  from let_run_returns [OF one this] have r: "result ?t \<noteq> None" .
  have a: "fst (Dispatch b ctx inputs w ocs) \<noteq> Running \<longrightarrow>
       fst (Dispatch b ctx inputs w ocs) = Returns None \<and>
       invocations (snd (Dispatch b ctx inputs w ocs)) = 20 \<and>
       inflight (snd (Dispatch b ctx inputs w ocs)) = [] \<and>
       backlog (snd (Dispatch b ctx inputs w ocs)) = [] \<and>
       wstate (snd (Dispatch b ctx inputs w ocs)) = foldl (\<lambda>w x. snd (Worker b w x)) w inputs"
    using s1 v1 assms(1) by (auto simp: D smooth_def served_def split: option.splits)
  have b: "invocations (snd (Dispatch b ctx inputs w ocs)) \<le> 20"
    "wstate (snd (Dispatch b ctx inputs w ocs)) =
         foldl (\<lambda>w x. snd (Worker b w x)) w
           (take (invocations (snd (Dispatch b ctx inputs w ocs))) inputs)"
    using v1 assms(1) by (simp_all add: D served_def)
  have c: "fst (Dispatch b ctx inputs w ocs) = Running \<longrightarrow>
         backlog (snd (Dispatch b ctx inputs w ocs)) =
           drop (invocations (snd (Dispatch b ctx inputs w ocs))) inputs"
    using v1 by (auto simp: D served_def split: option.splits)
  from r s2 have t: "result ?t = Some None" "invocations ?t = 20" "inflight ?t = []"
    by (auto simp: smooth_def split: option.splits)
  with v2 assms(1) have "wstate ?t = foldl (\<lambda>w x. snd (Worker b w x)) w inputs"
    by (simp add: served_def)
  with t have d: "fst (Dispatch b ctx inputs w (ocs @ let_run 20)) = Returns None"
    "invocations (snd (Dispatch b ctx inputs w (ocs @ let_run 20))) = 20"
    "inflight (snd (Dispatch b ctx inputs w (ocs @ let_run 20))) = []"
    "wstate (snd (Dispatch b ctx inputs w (ocs @ let_run 20))) =
         foldl (\<lambda>w x. snd (Worker b w x)) w inputs"
    by (simp_all add: D run_append)
  from a b c d show ?thesis by blast
qed

lemma faultyE_step:
  assumes "Worker b = faultyWith err" "oc \<noteq> CtxDone" "faultyE err s"
  shows "faultyE err (step b ctx oc s)"
proof (cases oc)
  case Invoke
  with assms show ?thesis
    by (auto simp: step_simps faultyE_def faultyWith_def Let_def
        split: list.splits option.splits)
next
  case (Return i)
  show ?thesis
  proof (cases "i < length (inflight s)")
    case False
    with assms(3) Return show ?thesis by (simp add: step_simps)
  next
    case True
    let ?rest = "take i (inflight s) @ drop (Suc i) (inflight s)"
    have sub: "set ?rest \<subseteq> set (inflight s)" by (rule set_remove_nth_subset)
    with assms(3) have sub': "set ?rest \<subseteq> {None, Some (err 3), Some (err 5), Some (err 8)}"
      unfolding faultyE_def by blast
    from True have mem: "inflight s ! i \<in> set (inflight s)" by simp
    show ?thesis
    proof (cases "inflight s ! i")
      case None
      have keep: "\<exists>r \<in> set ?rest. r \<noteq> None" if "\<exists>r \<in> set (inflight s). r \<noteq> None"
      proof -
        from that obtain r where r: "r \<in> set (inflight s)" "r \<noteq> None" by blast
        with None have "inflight s ! i \<noteq> r" by auto
        from set_remove_nth_keeps [OF r(1) True this] r(2) show ?thesis by blast
      qed
      have st: "step b ctx oc s = s\<lparr>inflight := ?rest\<rparr>"
        using Return True None by (simp add: step_simps)
      show ?thesis
      proof (cases "result s")
        case None
        with assms(3) sub' keep show ?thesis unfolding st by (simp add: faultyE_def)
      next
        case (Some r)
        with assms(3) sub' show ?thesis unfolding st by (simp add: faultyE_def)
      qed
    next
      case (Some e)
      with mem assms(3) have e: "e = err 3 \<or> e = err 5 \<or> e = err 8"
        unfolding faultyE_def by auto
      show ?thesis
      proof (cases "result s")
        case None
        then have st: "step b ctx oc s = s\<lparr>inflight := ?rest,
            result := Some (Some e), backlog := []\<rparr>"
          using Return True Some by (simp add: step_simps)
        show ?thesis unfolding st using assms(3) sub' e
          by (simp add: faultyE_def)
      next
        case Some2: (Some r)
        then have st: "step b ctx oc s = s\<lparr>inflight := ?rest\<rparr>"
          using Return True Some by (simp add: step_simps)
        show ?thesis unfolding st using assms(3) sub' Some2
          by (simp add: faultyE_def)
      qed
    qed
  qed
next
  case CtxDone
  with assms show ?thesis by simp
next
  case Finish
  with assms show ?thesis
    by (auto simp: step_simps faultyE_def split: list.splits option.splits)
qed

lemma faultyE_run:
  assumes "Worker b = faultyWith err"
  shows "CtxDone \<notin> set ocs \<Longrightarrow> faultyE err s \<Longrightarrow> faultyE err (run b ctx ocs s)"
proof (induction ocs arbitrary: s)
  case Nil
  then show ?case by simp
next
  case (Cons oc ocs)
  from Cons.prems have "oc \<noteq> CtxDone" "CtxDone \<notin> set ocs" by auto
  from Cons.IH [OF this(2) faultyE_step [OF assms this(1) Cons.prems(2)]]
  show ?case by simp
qed

lemma run_Return_idle: "inflight s = [] \<Longrightarrow> run b ctx (replicate n (Return i)) s = s"
  by (induction n) (simp_all add: step_simps)

lemma one_at_a_time_faulty:
  assumes len: "length inputs = 10" and mm: "\<not> MaxWorkers b < MinWorkers b"
    and one: "1 \<le> MaxWorkers b" and wk: "Worker b = faultyWith err"
  shows "result (run b ctx (let_run 10) (init inputs 0)) = Some (Some (err 3))"
    and "invocations (run b ctx (let_run 10) (init inputs 0)) = 3"
    and "wstate (run b ctx (let_run 10) (init inputs 0)) = 3"
proof -
  from len obtain x1 x2 x3 rest where inp: "inputs = x1 # x2 # x3 # rest"
    by (cases inputs; cases "tl inputs"; cases "tl (tl inputs)") auto
  from one have pos: "0 < MaxWorkers b" by simp
  have split: "concat (replicate 10 [Invoke, Return 0]) =
      [Invoke, Return 0, Invoke, Return 0, Invoke, Return 0] @ concat (replicate 7 [Invoke, Return 0])"
    by (simp add: numeral_eq_Suc)
  let ?s3 = "run b ctx [Invoke, Return 0, Invoke, Return 0, Invoke, Return 0] (init inputs 0)"
  have s3: "?s3 = \<lparr>backlog = [], inflight = [], invocations = 3, wstate = 3,
      result = Some (Some (err 3))\<rparr>"
    using pos by (simp add: inp init_def step_simps wk faultyWith_def Let_def numeral_3_eq_3)
  then have r3: "result ?s3 \<noteq> None" by simp
  have "run b ctx (let_run 10) (init inputs 0) =
      run b ctx (concat (replicate 7 [Invoke, Return 0]) @ [Finish]) ?s3"
    unfolding let_run_def split
    by (simp add: run_append run_Return_idle init_def)
  with run_returned [OF r3, of b ctx "concat (replicate 7 [Invoke, Return 0]) @ [Finish]"] s3
  show "result (run b ctx (let_run 10) (init inputs 0)) = Some (Some (err 3))"
    and inv: "invocations (run b ctx (let_run 10) (init inputs 0)) = 3"
    by simp_all
  have "faultyE err (init inputs 0)" using len by (simp add: faultyE_def init_def)
  from faultyE_run [OF wk CtxDone_notin_let_run this, of ctx 10] inv
  show "wstate (run b ctx (let_run 10) (init inputs 0)) = 3"
    by (simp add: faultyE_def)
qed

text \<open>
  C1: 10 inputs, any configuration with MinWorkers \<open>\<le>\<close> MaxWorkers and a worker slot, the
  worker failing on its calls 3, 5 and 8, and a context that does not end during the call.
  Under every schedule the worker is invoked at most 10 times (its own counter agrees).
  Fail-fast: while Dispatch runs, the first invocation that returns an error ends the call at
  once with exactly that error, the queued inputs are dropped and nothing is invoked
  afterwards.  If Dispatch has returned, it has returned the error of call 3, 5 or 8 and
  stays so.  Once the workers are let run, Dispatch returns such an error; and when the
  inputs are taken one at a time, it returns the error of call 3 after exactly 3 invocations.
\<close>

theorem Dispatch_fail_fast_first_error:
  assumes "length inputs = 10" "MinWorkers b \<le> MaxWorkers b" "1 \<le> MaxWorkers b"
    "Worker b = faultyWith err" "CtxDone \<notin> set ocs"
  shows "invocations (snd (Dispatch b ctx inputs 0 ocs)) \<le> 10
     \<and> wstate (snd (Dispatch b ctx inputs 0 ocs)) = invocations (snd (Dispatch b ctx inputs 0 ocs))
     \<and> (fst (Dispatch b ctx inputs 0 ocs) \<noteq> Running \<longrightarrow>
          (fst (Dispatch b ctx inputs 0 ocs) = Returns (Some (err 3)) \<or>
           fst (Dispatch b ctx inputs 0 ocs) = Returns (Some (err 5)) \<or>
           fst (Dispatch b ctx inputs 0 ocs) = Returns (Some (err 8))) \<and>
          backlog (snd (Dispatch b ctx inputs 0 ocs)) = [] \<and>
          fst (Dispatch b ctx inputs 0 (ocs @ later)) = fst (Dispatch b ctx inputs 0 ocs) \<and>
          invocations (snd (Dispatch b ctx inputs 0 (ocs @ later)))
            = invocations (snd (Dispatch b ctx inputs 0 ocs)))
     \<and> (fst (Dispatch b ctx inputs 0 ocs) = Running \<and>
          i < length (inflight (snd (Dispatch b ctx inputs 0 ocs))) \<and>
          inflight (snd (Dispatch b ctx inputs 0 ocs)) ! i = Some e \<longrightarrow>
          fst (Dispatch b ctx inputs 0 (ocs @ Return i # later)) = Returns (Some e) \<and>
          backlog (snd (Dispatch b ctx inputs 0 (ocs @ Return i # later))) = [] \<and>
          invocations (snd (Dispatch b ctx inputs 0 (ocs @ Return i # later)))
            = invocations (snd (Dispatch b ctx inputs 0 ocs)))
     \<and> (fst (Dispatch b ctx inputs 0 (ocs @ let_run 10)) = Returns (Some (err 3)) \<or>
         fst (Dispatch b ctx inputs 0 (ocs @ let_run 10)) = Returns (Some (err 5)) \<or>
         fst (Dispatch b ctx inputs 0 (ocs @ let_run 10)) = Returns (Some (err 8)))
     \<and> invocations (snd (Dispatch b ctx inputs 0 (ocs @ let_run 10))) \<le> 10
     \<and> fst (Dispatch b ctx inputs 0 (let_run 10)) = Returns (Some (err 3))
     \<and> invocations (snd (Dispatch b ctx inputs 0 (let_run 10))) = 3
     \<and> wstate (snd (Dispatch b ctx inputs 0 (let_run 10))) = 3"
proof -
  have mm: "\<not> MaxWorkers b < MinWorkers b" using assms(2) by simp
  note D = Dispatch_run [OF mm]
  let ?s = "run b ctx ocs (init inputs 0)"
  let ?t = "run b ctx (let_run 10) ?s"
  have f0: "faultyE err (init inputs 0)" using assms(1) by (simp add: faultyE_def init_def)
  have f1: "faultyE err ?s" by (rule faultyE_run [OF assms(4,5) f0])
  have f2: "faultyE err ?t" by (rule faultyE_run [OF assms(4) CtxDone_notin_let_run f1])
  have "room ?s \<le> room (init inputs (0::nat))" by (rule run_room)
  with assms(1) have "room ?s \<le> 10" by (simp add: room_def init_def)
  from let_run_returns [OF assms(3) this] have r: "result ?t \<noteq> None" .
  have a: "invocations (snd (Dispatch b ctx inputs 0 ocs)) \<le> 10"
    "wstate (snd (Dispatch b ctx inputs 0 ocs)) = invocations (snd (Dispatch b ctx inputs 0 ocs))"
    using f1 by (simp_all add: D faultyE_def)
  have b: "fst (Dispatch b ctx inputs 0 ocs) \<noteq> Running \<longrightarrow>
          (fst (Dispatch b ctx inputs 0 ocs) = Returns (Some (err 3)) \<or>
           fst (Dispatch b ctx inputs 0 ocs) = Returns (Some (err 5)) \<or>
           fst (Dispatch b ctx inputs 0 ocs) = Returns (Some (err 8))) \<and>
          backlog (snd (Dispatch b ctx inputs 0 ocs)) = [] \<and>
          fst (Dispatch b ctx inputs 0 (ocs @ later)) = fst (Dispatch b ctx inputs 0 ocs) \<and>
          invocations (snd (Dispatch b ctx inputs 0 (ocs @ later)))
            = invocations (snd (Dispatch b ctx inputs 0 ocs))"
  proof
    assume "fst (Dispatch b ctx inputs 0 ocs) \<noteq> Running"
    then have rs: "result ?s \<noteq> None" using Dispatch_Running [OF mm] by blast
    with f1 have "result ?s = Some (Some (err 3)) \<or> result ?s = Some (Some (err 5))
        \<or> result ?s = Some (Some (err 8))" "backlog ?s = []"
      by (auto simp: faultyE_def split: option.splits)
    moreover from run_returned [OF rs, of b ctx later]
    have "invocations (run b ctx later ?s) = invocations ?s"
      "result (run b ctx later ?s) = result ?s" by simp_all
    ultimately show "(fst (Dispatch b ctx inputs 0 ocs) = Returns (Some (err 3)) \<or>
           fst (Dispatch b ctx inputs 0 ocs) = Returns (Some (err 5)) \<or>
           fst (Dispatch b ctx inputs 0 ocs) = Returns (Some (err 8))) \<and>
          backlog (snd (Dispatch b ctx inputs 0 ocs)) = [] \<and>
          fst (Dispatch b ctx inputs 0 (ocs @ later)) = fst (Dispatch b ctx inputs 0 ocs) \<and>
          invocations (snd (Dispatch b ctx inputs 0 (ocs @ later)))
            = invocations (snd (Dispatch b ctx inputs 0 ocs))"
      by (auto simp: D run_append)
  qed
  have c: "fst (Dispatch b ctx inputs 0 ocs) = Running \<and>
          i < length (inflight (snd (Dispatch b ctx inputs 0 ocs))) \<and>
          inflight (snd (Dispatch b ctx inputs 0 ocs)) ! i = Some e \<longrightarrow>
          fst (Dispatch b ctx inputs 0 (ocs @ Return i # later)) = Returns (Some e) \<and>
          backlog (snd (Dispatch b ctx inputs 0 (ocs @ Return i # later))) = [] \<and>
          invocations (snd (Dispatch b ctx inputs 0 (ocs @ Return i # later)))
            = invocations (snd (Dispatch b ctx inputs 0 ocs))"
    using Dispatch_fail_fast [OF mm, of ctx inputs 0 ocs i e later] by blast
  have d: "fst (Dispatch b ctx inputs 0 (ocs @ let_run 10)) = Returns (Some (err 3)) \<or>
         fst (Dispatch b ctx inputs 0 (ocs @ let_run 10)) = Returns (Some (err 5)) \<or>
         fst (Dispatch b ctx inputs 0 (ocs @ let_run 10)) = Returns (Some (err 8))"
    using r f2 by (auto simp: D run_append faultyE_def split: option.splits)
  have e: "invocations (snd (Dispatch b ctx inputs 0 (ocs @ let_run 10))) \<le> 10"
    using f2 by (simp add: D run_append faultyE_def)
  have f: "fst (Dispatch b ctx inputs 0 (let_run 10)) = Returns (Some (err 3))"
    "invocations (snd (Dispatch b ctx inputs 0 (let_run 10))) = 3"
    "wstate (snd (Dispatch b ctx inputs 0 (let_run 10))) = 3"
    using one_at_a_time_faulty [OF assms(1) mm assms(3,4), of ctx] by (simp_all add: D)
  from a b c d e f show ?thesis by blast
qed

theorem Dispatch_wrong_range_panics_witness:
  "MaxWorkers (test_backend 10 0 shortSender) < MinWorkers (test_backend 10 0 shortSender) \<and>
   newWorkerInputsList 10 [] \<noteq> [] \<and>
   fst (Dispatch (test_backend 10 0 shortSender) WithTimeout (newWorkerInputsList 10 []) 0
          [Invoke, Return 0, Finish]) = Panicked \<and>
   invocations (snd (Dispatch (test_backend 10 0 shortSender) WithTimeout
          (newWorkerInputsList 10 []) 0 [Invoke, Return 0, Finish])) = 0"
  using Dispatch_wrong_range_panics [where b = "test_backend 10 0 shortSender"
      and inputs = "newWorkerInputsList 10 []" and ctx = WithTimeout and w = 0
      and ocs = "[Invoke, Return 0, Finish]"]
  by (simp add: test_backend_def)

theorem Dispatch_no_workers_needs_context_witness:
  "MinWorkers (test_backend 0 0 shortSender) = 0 \<and>
   MaxWorkers (test_backend 0 0 shortSender) = 0 \<and>
   newWorkerInputsList 10 [] \<noteq> [] \<and>
   ctx_Err WithTimeout = Some DeadlineExceeded \<and>
   invocations (snd (Dispatch (test_backend 0 0 shortSender) WithTimeout
          (newWorkerInputsList 10 []) 0 [Invoke, CtxDone, Invoke])) = 0 \<and>
   fst (Dispatch (test_backend 0 0 shortSender) WithTimeout (newWorkerInputsList 10 []) 0
          [Invoke, CtxDone, Invoke]) = Returns (Some (newerror DeadlineExceeded 0))"
  using Dispatch_no_workers_needs_context [where b = "test_backend 0 0 shortSender"
      and inputs = "newWorkerInputsList 10 []" and ctx = WithTimeout and e = DeadlineExceeded
      and w = 0 and ocs = "[Invoke, CtxDone, Invoke]"]
  by (simp add: test_backend_def)

theorem Dispatch_adaptive_all_invoked_once_witness:
  "length (newWorkerInputsList 20 []) = 20 \<and>
   MinWorkers (test_backend 0 40 shortSender) = 0 \<and>
   MaxWorkers (test_backend 0 40 shortSender) = 40 \<and>
   (\<forall>w x. fst (Worker (test_backend 0 40 shortSender) w x) = None) \<and>
   CtxDone \<notin> set [Invoke, Invoke, Return 1] \<and>
   fst (Dispatch (test_backend 0 40 shortSender) WithTimeout (newWorkerInputsList 20 []) 0
          ([Invoke, Invoke, Return 1] @ let_run 20)) = Returns None \<and>
   invocations (snd (Dispatch (test_backend 0 40 shortSender) WithTimeout
          (newWorkerInputsList 20 []) 0 ([Invoke, Invoke, Return 1] @ let_run 20))) = 20 \<and>
   inflight (snd (Dispatch (test_backend 0 40 shortSender) WithTimeout
          (newWorkerInputsList 20 []) 0 ([Invoke, Invoke, Return 1] @ let_run 20))) = [] \<and>
   wstate (snd (Dispatch (test_backend 0 40 shortSender) WithTimeout
          (newWorkerInputsList 20 []) 0 ([Invoke, Invoke, Return 1] @ let_run 20))) = 20"
proof -
  have count: "foldl (\<lambda>w x. snd (shortSender w x)) 0 (newWorkerInputsList 20 []) = 20"
    by code_simp
  show ?thesis
    using Dispatch_adaptive_all_invoked_once [where b = "test_backend 0 40 shortSender"
        and inputs = "newWorkerInputsList 20 []" and ctx = WithTimeout and w = 0
        and ocs = "[Invoke, Invoke, Return 1]"] count
    by (simp add: test_backend_def shortSender_def)
qed

theorem Dispatch_fail_fast_first_error_witness:
  "length (newWorkerInputsList 10 []) = 10 \<and>
   MinWorkers (test_backend 0 10 faultySender) \<le> MaxWorkers (test_backend 0 10 faultySender) \<and>
   1 \<le> MaxWorkers (test_backend 0 10 faultySender) \<and>
   Worker (test_backend 0 10 faultySender) = faultyWith (\<lambda>count. expectedError) \<and>
   CtxDone \<notin> set [Invoke, Invoke, Invoke] \<and>
   fst (Dispatch (test_backend 0 10 faultySender) WithTimeout (newWorkerInputsList 10 []) 0
          [Invoke, Invoke, Invoke]) = Running \<and>
   inflight (snd (Dispatch (test_backend 0 10 faultySender) WithTimeout
          (newWorkerInputsList 10 []) 0 [Invoke, Invoke, Invoke]))
     = [None, None, Some expectedError] \<and>
   fst (Dispatch (test_backend 0 10 faultySender) WithTimeout (newWorkerInputsList 10 []) 0
          ([Invoke, Invoke, Invoke] @ Return 2 # [Invoke, Return 0, Finish]))
     = Returns (Some expectedError) \<and>
   invocations (snd (Dispatch (test_backend 0 10 faultySender) WithTimeout
          (newWorkerInputsList 10 []) 0
          ([Invoke, Invoke, Invoke] @ Return 2 # [Invoke, Return 0, Finish]))) = 3 \<and>
   fst (Dispatch (test_backend 0 10 faultySender) WithTimeout (newWorkerInputsList 10 []) 0
          (let_run 10)) = Returns (Some expectedError) \<and>
   invocations (snd (Dispatch (test_backend 0 10 faultySender) WithTimeout
          (newWorkerInputsList 10 []) 0 (let_run 10))) = 3"
proof -
  have run3: "Dispatch (test_backend 0 10 faultySender) WithTimeout (newWorkerInputsList 10 []) 0
      [Invoke, Invoke, Invoke]
    = (Running, \<lparr>backlog = newWorkerInputsList 7 [], inflight = [None, None, Some expectedError],
         invocations = 3, wstate = 3, result = None\<rparr>)"
    by code_simp
  show ?thesis
    using Dispatch_fail_fast_first_error [where b = "test_backend 0 10 faultySender"
        and inputs = "newWorkerInputsList 10 []" and ctx = WithTimeout
        and err = "\<lambda>count. expectedError" and ocs = "[Invoke, Invoke, Invoke]"
        and i = 2 and e = expectedError and later = "[Invoke, Return 0, Finish]"]
      run3
    by (simp add: test_backend_def faultySender_faultyWith)
qed
end
